theory Spec2Isabelle
  imports Complex_Main
begin

section \<open>Data model of OpenHtml.py\<close>

text \<open>
  The script works on pandas data frames with the columns \<open>trade_date\<close> and \<open>high\<close>.
  A frame is modelled as the list of its rows, in the order of the frame, labelled
  \<open>0 .. n-1\<close> (the default index of \<open>pd.DataFrame(data)\<close>).

  A cell of the \<open>high\<close> column is either a float or a string, as the provider delivers
  it. Floats are modelled as reals (no NaN, no infinity, no rounding). A string cell
  \<open>Str s p\<close> carries its text \<open>s\<close> and the value \<open>p\<close> that Python's \<open>float(s)\<close> returns,
  \<open>None\<close> when \<open>float(s)\<close> raises ValueError.

  A cell of the \<open>trade_date\<close> column is either a value that \<open>pd.to_datetime\<close> accepts
  (\<open>Date d\<close>, the day number \<open>d\<close>) or one that it rejects (\<open>BadDate s\<close>).
  Text printed to standard output is not modelled.
\<close>

datatype cell = Float real | Str string "real option"

datatype date_cell = Date int | BadDate string

record bar =
  trade_date :: date_cell
  high :: cell

type_synonym dataframe = "bar list"

datatype exn = TypeError | ValueError | IndexError | OSError | ProviderError string

text \<open>A predicate of the chain receives the frame (or None) and may raise; since
  a predicate can assign to a column of the frame it was given, it also returns the frame
  as it is after the call.\<close>

type_synonym predicate = "dataframe option \<Rightarrow> (exn + bool) \<times> dataframe option"

subsection \<open>Python comparisons on cells\<close>

fun str_lt :: "string \<Rightarrow> string \<Rightarrow> bool" where
  "str_lt [] [] = False"
| "str_lt [] (y # ys) = True"
| "str_lt (x # xs) [] = False"
| "str_lt (x # xs) (y # ys) =
     ((of_char x :: nat) < of_char y \<or> (x = y \<and> str_lt xs ys))"

fun py_lt :: "cell \<Rightarrow> cell \<Rightarrow> exn + bool" where
  "py_lt (Float a) (Float b) = Inr (a < b)"
| "py_lt (Str s p) (Str t q) = Inr (str_lt s t)"
| "py_lt _ _ = Inl TypeError"

fun py_eq :: "cell \<Rightarrow> cell \<Rightarrow> bool" where
  "py_eq (Float a) (Float b) = (a = b)"
| "py_eq (Str s p) (Str t q) = (s = t)"
| "py_eq _ _ = False"

text \<open>\<open>Series.max()\<close>: the largest cell under Python's comparison; TypeError when the
  column mixes floats and strings; NaN (here None) for an empty series.\<close>

fun max_from :: "cell \<Rightarrow> cell list \<Rightarrow> exn + cell" where
  "max_from m [] = Inr m"
| "max_from m (x # xs) =
     (case py_lt m x of
        Inl e \<Rightarrow> Inl e
      | Inr b \<Rightarrow> max_from (if b then x else m) xs)"

fun series_max :: "cell list \<Rightarrow> exn + cell option" where
  "series_max [] = Inr None"
| "series_max (x # xs) =
     (case max_from x xs of Inl e \<Rightarrow> Inl e | Inr m \<Rightarrow> Inr (Some m))"

text \<open>\<open>a <= b\<close> on the results of \<open>max()\<close>; a comparison with NaN is False, a float
  (NaN included) against a string raises TypeError.\<close>

fun py_le_max :: "cell option \<Rightarrow> cell option \<Rightarrow> exn + bool" where
  "py_le_max (Some (Float a)) (Some (Float b)) = Inr (a \<le> b)"
| "py_le_max (Some (Str s p)) (Some (Str t q)) = Inr (str_lt s t \<or> s = t)"
| "py_le_max None None = Inr False"
| "py_le_max None (Some (Float b)) = Inr False"
| "py_le_max (Some (Float a)) None = Inr False"
| "py_le_max _ _ = Inl TypeError"

fun py_eq_max :: "cell option \<Rightarrow> cell option \<Rightarrow> bool" where
  "py_eq_max (Some a) (Some b) = py_eq a b"
| "py_eq_max _ _ = False"

subsection \<open>Slices\<close>

definition tail :: "nat \<Rightarrow> 'a list \<Rightarrow> 'a list" where
  \<comment> \<open>\<open>s.tail(k)\<close> and \<open>s.iloc[-k:]\<close>: the last k entries, all of them when there are fewer\<close>
  "tail k xs = drop (length xs - k) xs"

definition iloc_30_7 :: "'a list \<Rightarrow> 'a list" where
  \<comment> \<open>\<open>s.iloc[-30:-7]\<close>\<close>
  "iloc_30_7 xs = take (length xs - 7 - (length xs - 30)) (drop (length xs - 30) xs)"

definition slice_bound_neg :: "int \<Rightarrow> int \<Rightarrow> int" where
  \<comment> \<open>how Python clips a bound of a slice with a negative step on a sequence of length n\<close>
  "slice_bound_neg n i =
     (if i < 0 then (if i + n < 0 then - 1 else i + n)
      else if n \<le> i then n - 1 else i)"

definition iloc_rev :: "'a list \<Rightarrow> int \<Rightarrow> int \<Rightarrow> 'a list" where
  \<comment> \<open>\<open>s.iloc[start:stop:-1]\<close>\<close>
  "iloc_rev xs start stop =
     (let n = int (length xs);
          a = slice_bound_neg n start;
          b = slice_bound_neg n stop
      in map (\<lambda>k. xs ! nat k) (rev [b + 1 .. a]))"

section \<open>The predicates\<close>

subsection \<open>is\_price\_increasing\<close>

text \<open>\<open>all(s.iloc[i] < s.iloc[i + 1] for i in range(len(s) - 1))\<close>: stops at the first
  pair that is not increasing, and raises where a comparison raises.\<close>

fun all_increasing :: "cell list \<Rightarrow> exn + bool" where
  "all_increasing (a # b # xs) =
     (case py_lt a b of
        Inl e \<Rightarrow> Inl e
      | Inr ok \<Rightarrow> if ok then all_increasing (b # xs) else Inr False)"
| "all_increasing _ = Inr True"

definition is_price_increasing :: predicate where
  "is_price_increasing dfo =
     (case dfo of
        None \<Rightarrow> (Inr False, dfo)
      | Some df \<Rightarrow>
          if length df < 10 then (Inr False, dfo)
          else let last_10_days_highs = tail 10 (map high df)
               in (all_increasing last_10_days_highs, dfo))"

subsection \<open>is\_30\_to\_7\_high\_max\<close>

definition is_30_to_7_high_max :: predicate where
  "is_30_to_7_high_max dfo =
     (case dfo of
        None \<Rightarrow> (Inr False, dfo)
      | Some df \<Rightarrow>
          if length df < 30 then (Inr False, dfo)
          else let high_last_30_to_7 = iloc_30_7 (map high df);
                   last_seven_highs = tail 7 (map high df)
               in (case series_max high_last_30_to_7 of
                     Inl e \<Rightarrow> (Inl e, dfo)
                   | Inr m1 \<Rightarrow>
                       (case series_max last_seven_highs of
                          Inl e \<Rightarrow> (Inl e, dfo)
                        | Inr m2 \<Rightarrow> (py_le_max m1 m2, dfo))))"

subsection \<open>get\_nth\_high\_info and filter\_logic\_three\<close>

text \<open>The dtype of a column: float64 when every cell is a float, object otherwise.\<close>

fun float_column :: "cell list \<Rightarrow> real list option" where
  "float_column [] = Some []"
| "float_column (Float v # cs) = map_option ((#) v) (float_column cs)"
| "float_column (Str s p # cs) = None"

text \<open>\<open>astype(float)\<close>: every cell converted by \<open>float\<close>; ValueError (here None) when
  one conversion fails.\<close>

fun astype_float :: "cell list \<Rightarrow> real list option" where
  "astype_float [] = Some []"
| "astype_float (Float v # cs) = map_option ((#) v) (astype_float cs)"
| "astype_float (Str s p # cs) =
     (case p of None \<Rightarrow> None | Some v \<Rightarrow> map_option ((#) v) (astype_float cs))"

definition set_high :: "dataframe \<Rightarrow> real list \<Rightarrow> dataframe" where
  \<comment> \<open>\<open>df['high'] = values\<close>\<close>
  "set_high df vs = map2 (\<lambda>b v. b\<lparr>high := Float v\<rparr>) df vs"

text \<open>\<open>Series.nlargest(n)\<close> with the default \<open>keep='first'\<close> on a float column: pandas
  negates the values and sorts the positions with a stable sort, so equal values keep
  their original order; the result lists (label, value), largest first.\<close>

definition nlargest :: "nat \<Rightarrow> real list \<Rightarrow> (nat \<times> real) list" where
  "nlargest n hs = take n (sort_key (\<lambda>(i, v). - v) (enumerate 0 hs))"

text \<open>The result is (date, value, index), or None for Python's (None, None, None).
  Every exception inside the \<open>try\<close> is caught and gives None: \<open>nlargest\<close> raising
  TypeError on an object column, \<open>index[n-1]\<close> raising IndexError for \<open>n = 0\<close>,
  \<open>pd.to_datetime\<close> rejecting the date.\<close>

definition get_nth_high_info :: "dataframe option \<Rightarrow> nat \<Rightarrow> (int \<times> real \<times> nat) option" where
  "get_nth_high_info dfo n =
     (case dfo of
        None \<Rightarrow> None
      | Some df \<Rightarrow>
          if length df < n then None
          else (case float_column (map high df) of
                  None \<Rightarrow> None
                | Some hs \<Rightarrow>
                    let top_n_highs = nlargest n hs
                    in if n = 0 then None
                       else let high_index = fst (top_n_highs ! (n - 1));
                                high_value = snd (top_n_highs ! (n - 1))
                            in (case trade_date (df ! high_index) of
                                  Date d \<Rightarrow> Some (d, high_value, high_index)
                                | BadDate s \<Rightarrow> None)))"

definition filter_logic_three :: predicate where
  "filter_logic_three dfo =
     (case dfo of
        None \<Rightarrow> (Inr False, dfo)
      | Some df0 \<Rightarrow>
          if df0 = [] then (Inr False, dfo)
          else (case astype_float (map high df0) of
                  None \<Rightarrow> (Inl ValueError, dfo)
                | Some hs \<Rightarrow>
                    let df = set_high df0 hs;
                        last_index = int (length df) - 1;
                        high_last_30_to_7 =
                          iloc_rev (map high df) (last_index - 7) (last_index - 30);
                        last_seven_highs = tail 7 hs;
                        top_two_highs = nlargest 2 last_seven_highs
                    in if length top_two_highs < 2 then (Inr False, Some df)
                       else
                         (case (get_nth_high_info (Some df) 1,
                                get_nth_high_info (Some df) 2,
                                get_nth_high_info (Some df) 3) of
                            (Some (d1, v1, first_high_index),
                             Some (d2, v2, second_high_index),
                             Some (d3, v3, third_high_index)) \<Rightarrow>
                              let first_second =
                                    (\<bar>int first_high_index - int second_high_index\<bar> \<noteq> 1);
                                  first_third =
                                    (\<bar>int first_high_index - int third_high_index\<bar> \<noteq> 1);
                                  is_first_high_date_last_date =
                                    (trade_date (df ! first_high_index) = trade_date (last df));
                                  is_3023_high_7_high =
                                    (case (series_max high_last_30_to_7,
                                           series_max (map Float last_seven_highs)) of
                                       (Inr m1, Inr m2) \<Rightarrow> py_le_max m1 m2
                                     | _ \<Rightarrow> Inl TypeError)
                              in (Inr (is_first_high_date_last_date
                                        \<and> (first_second \<or> first_third)), Some df)
                          | _ \<Rightarrow> (Inl TypeError, Some df))))"

subsection \<open>is\_seven\_equals\_thirty\_high\<close>

definition is_seven_equals_thirty_high :: predicate where
  "is_seven_equals_thirty_high dfo =
     (case dfo of
        None \<Rightarrow> (Inr False, dfo)
      | Some df \<Rightarrow>
          if length df < 30 then (Inr False, dfo)
          else (case series_max (tail 7 (map high df)) of
                  Inl e \<Rightarrow> (Inl e, dfo)
                | Inr max_seven_day_high \<Rightarrow>
                    (case series_max (tail 30 (map high df)) of
                       Inl e \<Rightarrow> (Inl e, dfo)
                     | Inr max_thirty_day_high \<Rightarrow>
                         (Inr (py_eq_max max_seven_day_high max_thirty_day_high), dfo))))"

section \<open>The world of a run\<close>


record ticker =
  stock_code :: string
  short_name :: string
  exchange :: string
  list_date :: string

datatype call = AllCode | GetMarket string

datatype content = Text string | Table "ticker list"


record world =
  files :: "string \<rightharpoonup> content"
  calls :: "call list"
  slept :: "int list"
  invoked :: nat







section \<open>The retry decorator\<close>


type_synonym 'a func = "world \<Rightarrow> (exn + 'a option) \<times> world"

definition call :: "'a func \<Rightarrow> 'a func" where
  "call f w = f (w\<lparr>invoked := Suc (invoked w)\<rparr>)"





section \<open>process\_stock\<close>








section \<open>get\_stocks\_info, create\_html and the script\<close>














section \<open>The n-th highest bar, as the specification words it\<close>

text \<open>
  Position \<open>q\<close> outranks position \<open>p\<close> when its high is larger, or equal and \<open>q\<close> is
  the earlier position. The n-th highest bar is the one that exactly \<open>n - 1\<close> positions
  outrank. \<open>ahead\<close> is the same order on (position, value) pairs and \<open>by_value\<close> the
  list that \<open>nlargest\<close> cuts its result from.
\<close>

definition outranks :: "real list \<Rightarrow> nat \<Rightarrow> nat \<Rightarrow> bool" where
  "outranks hs q p \<longleftrightarrow> hs ! p < hs ! q \<or> (hs ! q = hs ! p \<and> q < p)"

definition spec_nth_highest :: "real list \<Rightarrow> nat \<Rightarrow> nat \<Rightarrow> bool" where
  "spec_nth_highest hs n p \<longleftrightarrow>
     p < length hs \<and> Suc (length (filter (\<lambda>q. outranks hs q p) [0..<length hs])) = n"

definition ahead :: "nat \<times> real \<Rightarrow> nat \<times> real \<Rightarrow> bool" where
  "ahead x y \<longleftrightarrow> snd y < snd x \<or> (snd x = snd y \<and> fst x < fst y)"

definition by_value :: "real list \<Rightarrow> (nat \<times> real) list" where
  "by_value hs = sort_key (\<lambda>(i, v). - v) (enumerate 0 hs)"



section \<open>Example inputs\<close>

definition frame_of :: "(int \<times> cell) list \<Rightarrow> dataframe" where
  "frame_of xs = map (\<lambda>(d, c). \<lparr>trade_date = Date d, high = c\<rparr>) xs"

definition rising10 :: dataframe where
  "rising10 = frame_of [(1, Float 1), (2, Float 2), (3, Float 3), (4, Float 4), (5, Float 5),
                        (6, Float 6), (7, Float 7), (8, Float 8), (9, Float 9), (10, Float 10)]"

definition two_bars :: dataframe where
  "two_bars = frame_of [(1, Float 1), (2, Float 2)]"

definition one_text_bar :: dataframe where
  "one_text_bar = frame_of [(1, Str ''5'' (Some 5))]"

definition peak3 :: dataframe where
  "peak3 = frame_of [(1, Float 2), (2, Float 1), (3, Float 3)]"

definition tie3 :: dataframe where
  "tie3 = frame_of [(1, Float 3), (2, Float 1), (3, Float 3)]"

definition text10 :: dataframe where
  "text10 = frame_of [(1, Str ''1'' (Some 1)), (2, Str ''2'' (Some 2)), (3, Str ''3'' (Some 3)),
                      (4, Str ''4'' (Some 4)), (5, Str ''5'' (Some 5)), (6, Str ''6'' (Some 6)),
                      (7, Str ''7'' (Some 7)), (8, Str ''8'' (Some 8)), (9, Str ''9'' (Some 9)),
                      (10, Str ''10'' (Some 10))]"











section \<open>Columns of floats\<close>

lemma float_column_Some: "float_column cs = Some hs \<Longrightarrow> cs = map Float hs"
proof (induction cs arbitrary: hs)
  case Nil
  then show ?case by simp
next
  case (Cons c cs)
  then show ?case by (cases c) auto
qed

lemma float_column_map_Float: "float_column (map Float hs) = Some hs"
  by (induction hs) auto

lemma astype_float_map_Float: "astype_float (map Float hs) = Some hs"
  by (induction hs) auto

lemma astype_float_length: "astype_float cs = Some hs \<Longrightarrow> length hs = length cs"
proof (induction cs arbitrary: hs)
  case Nil
  then show ?case by simp
next
  case (Cons c cs)
  then show ?case by (cases c) (auto split: option.splits)
qed

section \<open>ContinuousRise\<close>

lemma adjacent_Cons:
  "(\<forall>i. Suc i < length (x # y # zs) \<longrightarrow> (x # y # zs) ! i < (x # y # zs) ! Suc i)
     \<longleftrightarrow> x < y \<and> (\<forall>i. Suc i < length (y # zs) \<longrightarrow> (y # zs) ! i < (y # zs) ! Suc i)"
  (is "?L \<longleftrightarrow> ?R")
proof
  assume l: ?L
  have "x < y" using l by force
  moreover have "\<forall>i. Suc i < length (y # zs) \<longrightarrow> (y # zs) ! i < (y # zs) ! Suc i"
  proof (intro allI impI)
    fix i assume "Suc i < length (y # zs)"
    then have "Suc (Suc i) < length (x # y # zs)" by simp
    with l have "(x # y # zs) ! Suc i < (x # y # zs) ! Suc (Suc i)" by blast
    then show "(y # zs) ! i < (y # zs) ! Suc i" by simp
  qed
  ultimately show ?R by blast
next
  assume r: ?R
  show ?L
  proof (intro allI impI)
    fix i assume a: "Suc i < length (x # y # zs)"
    show "(x # y # zs) ! i < (x # y # zs) ! Suc i"
    proof (cases i)
      case 0
      then show ?thesis using r by simp
    next
      case (Suc j)
      then have "Suc j < length (y # zs)" using a by simp
      with r have "(y # zs) ! j < (y # zs) ! Suc j" by blast
      then show ?thesis using Suc by simp
    qed
  qed
qed

lemma all_increasing_floats:
  "all_increasing (map Float xs) = Inr (\<forall>i. Suc i < length xs \<longrightarrow> xs ! i < xs ! Suc i)"
proof (induction xs rule: induct_list012)
  case 1
  then show ?case by simp
next
  case (2 x)
  then show ?case by simp
next
  case (3 x y zs)
  have "all_increasing (map Float (x # y # zs))
          = (if x < y then all_increasing (map Float (y # zs)) else Inr False)"
    by simp
  also have "\<dots> = Inr (x < y \<and> (\<forall>i. Suc i < length (y # zs) \<longrightarrow> (y # zs) ! i < (y # zs) ! Suc i))"
    using 3 by simp
  finally show ?case by (simp only: adjacent_Cons)
qed

text \<open>
  Claim C10. On a series whose highs are floats, \<open>is_price_increasing\<close> returns True
  exactly when the series has at least 10 bars and every high among the last 10 is
  strictly below the high of the next day; in particular it returns False on a series
  of fewer than 10 bars and as soon as one adjacent pair of that tail is equal or
  decreasing.
\<close>

theorem is_price_increasing_strict:
  assumes "float_column (map high df) = Some hs"
  shows "fst (is_price_increasing (Some df))
           = Inr (10 \<le> length hs
                  \<and> (\<forall>i. length hs - 10 \<le> i \<and> Suc i < length hs \<longrightarrow> hs ! i < hs ! Suc i))"
proof -
  have cs: "map high df = map Float hs" using assms by (rule float_column_Some)
  then have len: "length df = length hs" by (metis length_map)
  show ?thesis
  proof (cases "length df < 10")
    case True
    then show ?thesis using len by (simp add: is_price_increasing_def)
  next
    case False
    have t: "tail 10 (map high df) = map Float (drop (length hs - 10) hs)"
      by (simp add: tail_def cs drop_map)
    have "(\<forall>i. Suc i < length (drop (length hs - 10) hs)
                \<longrightarrow> drop (length hs - 10) hs ! i < drop (length hs - 10) hs ! Suc i)
          \<longleftrightarrow> (\<forall>i. length hs - 10 \<le> i \<and> Suc i < length hs \<longrightarrow> hs ! i < hs ! Suc i)"
      (is "?A \<longleftrightarrow> ?B")
    proof
      assume a: ?A
      show ?B
      proof (intro allI impI)
        fix i assume i: "length hs - 10 \<le> i \<and> Suc i < length hs"
        define j where "j = i - (length hs - 10)"
        have ij: "i = (length hs - 10) + j" using i by (simp add: j_def)
        have "Suc j < length (drop (length hs - 10) hs)" using i ij by simp
        with a have "drop (length hs - 10) hs ! j < drop (length hs - 10) hs ! Suc j" by blast
        then show "hs ! i < hs ! Suc i" using i ij by simp
      qed
    next
      assume b: ?B
      show ?A
      proof (intro allI impI)
        fix j assume j: "Suc j < length (drop (length hs - 10) hs)"
        then have "length hs - 10 \<le> (length hs - 10) + j \<and> Suc ((length hs - 10) + j) < length hs"
          by simp
        with b have "hs ! ((length hs - 10) + j) < hs ! Suc ((length hs - 10) + j)" by blast
        then show "drop (length hs - 10) hs ! j < drop (length hs - 10) hs ! Suc j"
          using j by simp
      qed
    qed
    then show ?thesis
      using False len by (simp add: is_price_increasing_def t all_increasing_floats)
  qed
qed

theorem is_price_increasing_strict_witness:
  "float_column (map high rising10) = Some [1, 2, 3, 4, 5, 6, 7, 8, 9, 10]
   \<and> fst (is_price_increasing (Some rising10)) = Inr True"
proof -
  let ?hs = "[1, 2, 3, 4, 5, 6, 7, 8, 9, 10 :: real]"
  have h: "float_column (map high rising10) = Some ?hs"
    by (simp add: rising10_def frame_of_def)
  have "\<forall>i. length ?hs - 10 \<le> i \<and> Suc i < length ?hs \<longrightarrow> ?hs ! i < ?hs ! Suc i"
  proof (intro allI impI)
    fix i assume "length ?hs - 10 \<le> i \<and> Suc i < length ?hs"
    then have i: "i < Suc i" "Suc i < length ?hs" by simp_all
    have "sorted_wrt (<) ?hs" by simp
    then show "?hs ! i < ?hs ! Suc i" using i by (rule sorted_wrt_nth_less)
  qed
  then have "fst (is_price_increasing (Some rising10)) = Inr True"
    using is_price_increasing_strict [OF h] by simp
  with h show ?thesis by blast
qed

section \<open>PeakPositionPattern\<close>

lemma ahead_trans: "ahead x y \<Longrightarrow> ahead y z \<Longrightarrow> ahead x z"
  by (auto simp: ahead_def)

lemma ahead_asym: "ahead x y \<Longrightarrow> \<not> ahead y x"
  by (auto simp: ahead_def)

lemma key_eq: "(\<lambda>(i :: nat, v :: real). - v) = (\<lambda>x. - snd x)"
  by (simp add: fun_eq_iff)

lemma insort_ahead:
  "sorted_wrt ahead ys \<Longrightarrow> \<forall>y\<in>set ys. fst x < fst y
     \<Longrightarrow> sorted_wrt ahead (insort_key (\<lambda>x. - snd x) x ys)"
proof (induction ys)
  case Nil
  then show ?case by simp
next
  case (Cons y ys)
  show ?case
  proof (cases "snd y \<le> snd x")
    case True
    then have "ahead x y" using Cons.prems(2) by (auto simp: ahead_def)
    moreover have "\<forall>z\<in>set ys. ahead y z" using Cons.prems(1) by simp
    ultimately have "\<forall>z\<in>set (y # ys). ahead x z" by (auto intro: ahead_trans)
    then show ?thesis using True Cons.prems(1) by simp
  next
    case False
    then have yx: "ahead y x" by (auto simp: ahead_def)
    have "sorted_wrt ahead (insort_key (\<lambda>x. - snd x) x ys)"
      using Cons by simp
    moreover have "\<forall>z\<in>set (insort_key (\<lambda>x. - snd x) x ys). ahead y z"
      using yx Cons.prems(1) by (auto simp: set_insort_key)
    ultimately show ?thesis using False by simp
  qed
qed

lemma sorted_enumerate:
  "sorted_wrt ahead (sort_key (\<lambda>x. - snd x) (enumerate k hs))"
proof (induction hs arbitrary: k)
  case Nil
  then show ?case by simp
next
  case (Cons h hs)
  have "\<forall>y\<in>set (sort_key (\<lambda>x. - snd x) (enumerate (Suc k) hs)). fst (k, h) < fst y"
    by (auto simp: in_set_enumerate_eq)
  with Cons [of "Suc k"] show ?case
    by (simp add: insort_ahead)
qed

lemma by_value_sorted: "sorted_wrt ahead (by_value hs)"
  unfolding by_value_def key_eq by (rule sorted_enumerate)

lemma by_value_set: "set (by_value hs) = {(i, hs ! i) | i. i < length hs}"
  unfolding by_value_def by (auto simp: in_set_enumerate_eq)

lemma by_value_length: "length (by_value hs) = length hs"
  unfolding by_value_def by simp

lemma by_value_fst: "set (map fst (by_value hs)) = {0..<length hs}"
proof -
  have "set (by_value hs) = set (enumerate 0 hs)"
    unfolding by_value_def by simp
  then have "set (map fst (by_value hs)) = set (map fst (enumerate 0 hs))"
    by (simp only: set_map)
  also have "\<dots> = {0..<length hs}"
    by (simp only: map_fst_enumerate) simp
  finally show ?thesis .
qed

lemma by_value_distinct: "distinct (map fst (by_value hs))"
proof -
  have "distinct (map fst (enumerate 0 hs))"
    by (simp only: map_fst_enumerate) simp
  then have "inj_on fst (set (enumerate 0 hs))" and "distinct (enumerate 0 hs)"
    by (simp_all only: distinct_map)
  then show ?thesis unfolding by_value_def by (simp add: distinct_map)
qed

lemma by_value_nth:
  assumes "k < length hs"
  shows "fst (by_value hs ! k) < length hs"
    and "snd (by_value hs ! k) = hs ! fst (by_value hs ! k)"
proof -
  have "by_value hs ! k \<in> set (by_value hs)"
    using assms by (simp add: by_value_length)
  then obtain i where "by_value hs ! k = (i, hs ! i)" "i < length hs"
    unfolding by_value_set by blast
  then show "fst (by_value hs ! k) < length hs"
    and "snd (by_value hs ! k) = hs ! fst (by_value hs ! k)" by simp_all
qed

lemma ahead_before_nth:
  assumes srt: "sorted_wrt ahead xs" and k: "k < length xs"
  shows "{x \<in> set xs. ahead x (xs ! k)} = set (take k xs)"
proof
  show "{x \<in> set xs. ahead x (xs ! k)} \<subseteq> set (take k xs)"
  proof
    fix x assume "x \<in> {x \<in> set xs. ahead x (xs ! k)}"
    then have xin: "x \<in> set xs" and a: "ahead x (xs ! k)" by simp_all
    from xin obtain j where j: "j < length xs" "xs ! j = x" by (auto simp: in_set_conv_nth)
    have "j < k"
    proof (rule ccontr)
      assume "\<not> j < k"
      then consider "j = k" | "k < j" by linarith
      then show False
      proof cases
        case 1
        then show ?thesis using a j ahead_asym by blast
      next
        case 2
        then have "ahead (xs ! k) (xs ! j)"
          using srt j(1) by (simp add: sorted_wrt_iff_nth_less)
        then show ?thesis using a j ahead_asym by blast
      qed
    qed
    then show "x \<in> set (take k xs)"
      using j k by (auto simp: in_set_conv_nth)
  qed
next
  show "set (take k xs) \<subseteq> {x \<in> set xs. ahead x (xs ! k)}"
  proof
    fix x assume "x \<in> set (take k xs)"
    then obtain j where j: "j < k" "xs ! j = x"
      using k by (auto simp: in_set_conv_nth)
    then have "ahead x (xs ! k)"
      using srt k by (auto simp: sorted_wrt_iff_nth_less)
    moreover have "x \<in> set xs" using j k by (metis less_trans nth_mem)
    ultimately show "x \<in> {x \<in> set xs. ahead x (xs ! k)}" by simp
  qed
qed

lemma rank_by_value:
  assumes k: "k < length hs"
  shows "length (filter (\<lambda>q. outranks hs q (fst (by_value hs ! k))) [0..<length hs]) = k"
proof -
  let ?L = "by_value hs"
  let ?p = "fst (?L ! k)"
  have kl: "k < length ?L" using k by (simp add: by_value_length)
  have Lk: "?L ! k = (?p, hs ! ?p)"
    using by_value_nth(2) [OF k] by (simp add: prod_eq_iff)
  have inj: "inj_on fst (set ?L)"
    using by_value_distinct by (simp add: distinct_map)
  have dL: "distinct ?L" using by_value_distinct by (simp add: distinct_map)
  have "{q. q < length hs \<and> outranks hs q ?p} = fst ` {x \<in> set ?L. ahead x (?L ! k)}"
  proof -
    have "\<And>q. q < length hs \<Longrightarrow> outranks hs q ?p \<longleftrightarrow> ahead (q, hs ! q) (?L ! k)"
      by (subst Lk) (auto simp: outranks_def ahead_def)
    then show ?thesis
      unfolding by_value_set by (auto simp: image_iff) 
  qed
  also have "\<dots> = fst ` set (take k ?L)"
    using ahead_before_nth [OF by_value_sorted kl] by simp
  finally have eq: "{q. q < length hs \<and> outranks hs q ?p} = fst ` set (take k ?L)" .
  have "card (fst ` set (take k ?L)) = card (set (take k ?L))"
    by (rule card_image) (meson inj inj_on_subset set_take_subset)
  also have "\<dots> = length (take k ?L)"
    using dL by (simp add: distinct_card)
  also have "\<dots> = k" using kl by simp
  finally have c: "card {q. q < length hs \<and> outranks hs q ?p} = k" using eq by simp
  have "length (filter (\<lambda>q. outranks hs q ?p) [0..<length hs])
          = card ({q. outranks hs q ?p} \<inter> set [0..<length hs])"
    by (rule distinct_length_filter) simp
  also have "{q. outranks hs q ?p} \<inter> set [0..<length hs] = {q. q < length hs \<and> outranks hs q ?p}"
    by auto
  finally show ?thesis using c by simp
qed

lemma by_value_onto:
  assumes "p < length hs"
  shows "\<exists>k<length hs. fst (by_value hs ! k) = p"
proof -
  have "p \<in> set (map fst (by_value hs))"
    using assms unfolding by_value_fst by simp
  then obtain k where "k < length (by_value hs)" "map fst (by_value hs) ! k = p"
    by (metis in_set_conv_nth length_map)
  then show ?thesis by (auto simp: by_value_length)
qed

lemma spec_nth_highest_unique:
  assumes "spec_nth_highest hs n p"
  shows "0 < n \<and> n \<le> length hs \<and> p = fst (by_value hs ! (n - 1))"
proof -
  from assms have p: "p < length hs"
    and r: "Suc (length (filter (\<lambda>q. outranks hs q p) [0..<length hs])) = n"
    by (simp_all add: spec_nth_highest_def)
  from by_value_onto [OF p] obtain k where k: "k < length hs" "fst (by_value hs ! k) = p"
    by blast
  from rank_by_value [OF k(1)] k(2) r have "Suc k = n" by simp
  then show ?thesis using k by auto
qed

lemma spec_nth_highest_exists:
  assumes "0 < n" "n \<le> length hs"
  shows "spec_nth_highest hs n (fst (by_value hs ! (n - 1)))"
proof -
  have k: "n - 1 < length hs" using assms by simp
  show ?thesis
    unfolding spec_nth_highest_def
    using rank_by_value [OF k] by_value_nth(1) [OF k] assms by simp
qed


lemma set_high_dates:
  "length hs = length df \<Longrightarrow> map trade_date (set_high df hs) = map trade_date df"
  unfolding set_high_def
proof (induction df arbitrary: hs)
  case Nil
  then show ?case by simp
next
  case (Cons b df)
  then show ?case by (cases hs) auto
qed

lemma set_high_highs:
  "length hs = length df \<Longrightarrow> map high (set_high df hs) = map Float hs"
  unfolding set_high_def
proof (induction df arbitrary: hs)
  case Nil
  then show ?case by simp
next
  case (Cons b df)
  then show ?case by (cases hs) auto
qed

lemma nlargest_nth:
  "0 < n \<Longrightarrow> n \<le> length hs \<Longrightarrow> nlargest n hs ! (n - 1) = by_value hs ! (n - 1)"
  by (simp add: nlargest_def by_value_def)

lemma get_nth_high_info_float:
  assumes hs: "map high df = map Float hs"
    and n: "0 < n" "n \<le> length df"
    and dates: "\<forall>b\<in>set df. \<exists>d. trade_date b = Date d"
  shows "\<exists>d. get_nth_high_info (Some df) n
               = Some (d, hs ! fst (by_value hs ! (n - 1)), fst (by_value hs ! (n - 1)))"
proof -
  have len: "length df = length hs" using hs by (metis length_map)
  have k: "n - 1 < length hs" using n len by simp
  let ?p = "fst (by_value hs ! (n - 1))"
  have p: "?p < length df" using by_value_nth(1) [OF k] len by simp
  then have "df ! ?p \<in> set df" by simp
  with dates obtain d where d: "trade_date (df ! ?p) = Date d" by blast
  have fc: "float_column (map high df) = Some hs"
    by (simp add: hs float_column_map_Float)
  have nl: "nlargest n hs ! (n - 1) = by_value hs ! (n - 1)"
    using n len nlargest_nth [of n hs] by simp
  have "get_nth_high_info (Some df) n = Some (d, hs ! ?p, ?p)"
    using n fc d by_value_nth(2) [OF k] nl
    by (simp add: get_nth_high_info_def Let_def)
  then show ?thesis by blast
qed

text \<open>
  Claim C4. On a series of at least 3 bars whose highs convert to floats and whose dates
  parse, \<open>filter_logic_three\<close> returns True exactly when the bar with the highest high
  has the trade date of the last bar and the first and second highest bars, or the
  first and third highest bars, are not at index distance 1; the n-th highest bar is
  the one chosen by value, ties going to the earlier position.
\<close>

theorem filter_logic_three_peak:
  assumes bars: "3 \<le> length df"
    and coerced: "astype_float (map high df) = Some hs"
    and dates: "\<forall>b\<in>set df. \<exists>d. trade_date b = Date d"
    and p1: "spec_nth_highest hs 1 p1"
    and p2: "spec_nth_highest hs 2 p2"
    and p3: "spec_nth_highest hs 3 p3"
  shows "fst (filter_logic_three (Some df))
           = Inr (trade_date (df ! p1) = trade_date (last df)
                  \<and> (\<bar>int p1 - int p2\<bar> \<noteq> 1 \<or> \<bar>int p1 - int p3\<bar> \<noteq> 1))"
proof -
  let ?df = "set_high df hs"
  have len: "length hs = length df"
    using coerced by (simp add: astype_float_length)
  have ne: "df \<noteq> []" using bars by auto
  have highs: "map high ?df = map Float hs" using len by (rule set_high_highs)
  have tds: "map trade_date ?df = map trade_date df" using len by (rule set_high_dates)
  have len': "length ?df = length df" using tds by (metis length_map)
  have ne': "?df \<noteq> []" using ne len' by auto
  have dates': "\<forall>b\<in>set ?df. \<exists>d. trade_date b = Date d"
  proof
    fix b assume "b \<in> set ?df"
    then have "trade_date b \<in> set (map trade_date ?df)" by simp
    then have "trade_date b \<in> trade_date ` set df" by (simp only: tds set_map)
    then show "\<exists>d. trade_date b = Date d" using dates by auto
  qed
  have q1: "p1 = fst (by_value hs ! 0)" using spec_nth_highest_unique [OF p1] by simp
  have q2: "p2 = fst (by_value hs ! 1)" using spec_nth_highest_unique [OF p2] by simp
  have q3: "p3 = fst (by_value hs ! 2)" using spec_nth_highest_unique [OF p3] by simp
  obtain d1 where g1: "get_nth_high_info (Some ?df) 1 = Some (d1, hs ! p1, p1)"
    using get_nth_high_info_float [OF highs, of 1] dates' bars len' q1 by auto
  obtain d2 where g2: "get_nth_high_info (Some ?df) 2 = Some (d2, hs ! p2, p2)"
    using get_nth_high_info_float [OF highs, of 2] dates' bars len' q2 by auto
  obtain d3 where g3: "get_nth_high_info (Some ?df) 3 = Some (d3, hs ! p3, p3)"
    using get_nth_high_info_float [OF highs, of 3] dates' bars len' q3 by auto
  have g1': "get_nth_high_info (Some ?df) (Suc 0) = Some (d1, hs ! p1, p1)"
    using g1 by simp
  have two: "\<not> length (nlargest 2 (tail 7 hs)) < 2"
    using bars len by (simp add: nlargest_def tail_def)
  have p1lt: "p1 < length df" using p1 len by (simp add: spec_nth_highest_def)
  have "trade_date (?df ! p1) = map trade_date ?df ! p1"
    using p1lt len' by simp
  then have td1: "trade_date (?df ! p1) = trade_date (df ! p1)"
    using p1lt by (simp only: tds) simp
  have "trade_date (last ?df) = last (map trade_date ?df)"
    using ne' by (simp add: last_map)
  then have tdl: "trade_date (last ?df) = trade_date (last df)"
    using ne by (simp only: tds) (simp add: last_map)
  show ?thesis
    using ne coerced two
    by (simp add: filter_logic_three_def Let_def g1' g2 g3 td1 tdl)
qed

theorem filter_logic_three_peak_witness:
  "3 \<le> length tie3
   \<and> astype_float (map high tie3) = Some [3, 1, 3]
   \<and> map trade_date tie3 = [Date 1, Date 2, Date 3]
   \<and> spec_nth_highest [3, 1, 3] 1 0
   \<and> spec_nth_highest [3, 1, 3] 2 2
   \<and> spec_nth_highest [3, 1, 3] 3 1
   \<and> fst (filter_logic_three (Some tie3)) = Inr False"
proof -
  have bars: "3 \<le> length tie3" by (simp add: tie3_def frame_of_def)
  have coerced: "astype_float (map high tie3) = Some [3, 1, 3]"
    by (simp add: tie3_def frame_of_def)
  have tds: "map trade_date tie3 = [Date 1, Date 2, Date 3]"
    by (simp add: tie3_def frame_of_def)
  have dates: "\<forall>b\<in>set tie3. \<exists>d. trade_date b = Date d"
    by (simp add: tie3_def frame_of_def)
  have up: "[0..<3] = [0, 1, 2]" by (simp add: upt_rec)
  have p1: "spec_nth_highest [3, 1, 3] 1 0"
    by (simp add: spec_nth_highest_def outranks_def up)
  have p2: "spec_nth_highest [3, 1, 3] 2 2"
    by (simp add: spec_nth_highest_def outranks_def up)
  have p3: "spec_nth_highest [3, 1, 3] 3 1"
    by (simp add: spec_nth_highest_def outranks_def up)
  have "fst (filter_logic_three (Some tie3)) = Inr False"
    using filter_logic_three_peak [OF bars coerced dates p1 p2 p3]
    by (simp add: tie3_def frame_of_def)
  with bars coerced tds p1 p2 p3 show ?thesis by blast
qed

section \<open>Series shorter than the lookback\<close>

lemmas eval_defs = frame_of_def tail_def nlargest_def get_nth_high_info_def set_high_def
  filter_logic_three_def is_price_increasing_def

lemma short_is_price_increasing:
  "length df < 10 \<Longrightarrow> fst (is_price_increasing (Some df)) = Inr False"
  by (simp add: is_price_increasing_def)

lemma short_is_30_to_7_high_max:
  "length df < 30 \<Longrightarrow> fst (is_30_to_7_high_max (Some df)) = Inr False"
  by (simp add: is_30_to_7_high_max_def)

lemma short_is_seven_equals_thirty_high:
  "length df < 30 \<Longrightarrow> fst (is_seven_equals_thirty_high (Some df)) = Inr False"
  by (simp add: is_seven_equals_thirty_high_def)

lemma short_filter_logic_three:
  assumes "length df < 2" and "astype_float (map high df) = Some hs"
  shows "fst (filter_logic_three (Some df)) = Inr False"
proof (cases "df = []")
  case True
  then show ?thesis by (simp add: filter_logic_three_def)
next
  case False
  have "length hs = length df" using assms(2) by (simp add: astype_float_length)
  then have "length (nlargest 2 (tail 7 hs)) < 2"
    using assms(1) by (simp add: nlargest_def tail_def)
  then show ?thesis
    using False assms(2) by (simp add: filter_logic_three_def Let_def)
qed

text \<open>
  Claim C2. A series shorter than the lookback of a predicate makes the predicate
  return False without raising. The three lemmas above show it for
  \<open>is_price_increasing\<close>, \<open>is_30_to_7_high_max\<close> and \<open>is_seven_equals_thirty_high\<close>, and
  for \<open>filter_logic_three\<close> on fewer than 2 bars. On a series of exactly 2 bars
  \<open>filter_logic_three\<close> raises: \<open>get_nth_high_info(df, 3)\<close> returns the triple of None,
  and the index distance to a None index is a TypeError.
\<close>

theorem filter_logic_three_two_bars_raises:
  "filter_logic_three (Some two_bars) = (Inl TypeError, Some two_bars)"
  by (simp add: two_bars_def eval_defs)

section \<open>Raw values and coerced values\<close>

text \<open>
  Claim C9. Every comparison of highs is made on values coerced to floats. Only
  \<open>filter_logic_three\<close> coerces; \<open>is_price_increasing\<close> compares the cells as they
  arrive. On ten bars whose highs are the strings "1" to "10" it returns False, since
  "9" < "10" is False for strings, while on the same highs coerced to floats it
  returns True.
\<close>

theorem is_price_increasing_text_order:
  "fst (is_price_increasing (Some text10)) = Inr False
   \<and> astype_float (map high text10) = Some [1, 2, 3, 4, 5, 6, 7, 8, 9, 10]
   \<and> fst (is_price_increasing (Some (set_high text10 [1, 2, 3, 4, 5, 6, 7, 8, 9, 10]))) = Inr True"
  by (simp add: text10_def eval_defs)

section \<open>What the predicates do to the frame\<close>

text \<open>
  Claim C3, as stated. No predicate changes the frame it is given. For
  \<open>filter_logic_three\<close> this fails on a frame whose high is the string "5": after the
  call the cell is the float 5.
\<close>

theorem filter_logic_three_mutates:
  "snd (filter_logic_three (Some one_text_bar)) \<noteq> Some one_text_bar"
  by (simp add: one_text_bar_def eval_defs)

lemma set_high_same:
  "map high df = map Float hs \<Longrightarrow> set_high df hs = df"
  unfolding set_high_def
proof (induction df arbitrary: hs)
  case Nil
  then show ?case by simp
next
  case (Cons b df)
  then show ?case by (cases hs) auto
qed

lemma filter_logic_three_frame:
  "snd (filter_logic_three dfo) = dfo
   \<or> (\<exists>df hs. dfo = Some df \<and> astype_float (map high df) = Some hs
         \<and> snd (filter_logic_three dfo) = Some (set_high df hs))"
  by (auto simp: filter_logic_three_def Let_def split: option.splits prod.splits)

text \<open>
  Claim C3, amended. \<open>is_price_increasing\<close>, \<open>is_30_to_7_high_max\<close> and
  \<open>is_seven_equals_thirty_high\<close> leave the frame as it is. \<open>filter_logic_three\<close> leaves
  it as it is or replaces the high column by its values coerced to floats; it never
  changes the trade dates, and a frame whose highs are floats already is unchanged.
\<close>

theorem predicates_frame:
  "snd (is_price_increasing dfo) = dfo
   \<and> snd (is_30_to_7_high_max dfo) = dfo
   \<and> snd (is_seven_equals_thirty_high dfo) = dfo
   \<and> (snd (filter_logic_three dfo) = dfo
       \<or> (\<exists>df hs. dfo = Some df \<and> astype_float (map high df) = Some hs
             \<and> snd (filter_logic_three dfo) = Some (set_high df hs)))
   \<and> map_option (map trade_date) (snd (filter_logic_three dfo)) = map_option (map trade_date) dfo
   \<and> (\<forall>df hs. dfo = Some df \<and> float_column (map high df) = Some hs
         \<longrightarrow> snd (filter_logic_three dfo) = dfo)"
proof -
  have a: "snd (is_price_increasing dfo) = dfo"
    by (simp add: is_price_increasing_def Let_def split: option.splits)
  have b: "snd (is_30_to_7_high_max dfo) = dfo"
    by (simp add: is_30_to_7_high_max_def Let_def split: option.splits sum.splits)
  have c: "snd (is_seven_equals_thirty_high dfo) = dfo"
    by (simp add: is_seven_equals_thirty_high_def split: option.splits sum.splits)
  note d = filter_logic_three_frame [of dfo]
  have e: "map_option (map trade_date) (snd (filter_logic_three dfo))
             = map_option (map trade_date) dfo"
    using d by (auto simp: set_high_dates astype_float_length)
  have f: "\<forall>df hs. dfo = Some df \<and> float_column (map high df) = Some hs
             \<longrightarrow> snd (filter_logic_three dfo) = dfo"
  proof (intro allI impI)
    fix df hs assume h: "dfo = Some df \<and> float_column (map high df) = Some hs"
    then have m: "map high df = map Float hs" by (simp add: float_column_Some)
    then have "astype_float (map high df) = Some hs" by (simp add: astype_float_map_Float)
    with d h m show "snd (filter_logic_three dfo) = dfo"
      by (auto simp: set_high_same)
  qed
  from a b c d e f show ?thesis by blast
qed

theorem predicates_frame_witness:
  "float_column (map high peak3) = Some [2, 1, 3]
   \<and> snd (filter_logic_three (Some peak3)) = Some peak3
   \<and> snd (is_price_increasing (Some one_text_bar)) = Some one_text_bar
   \<and> map_option (map trade_date) (snd (filter_logic_three (Some one_text_bar)))
       = Some (map trade_date one_text_bar)"
proof -
  have h: "float_column (map high peak3) = Some [2, 1, 3]"
    by (simp add: peak3_def frame_of_def)
  from predicates_frame [of "Some peak3"] h
  have "snd (filter_logic_three (Some peak3)) = Some peak3" by blast
  moreover from predicates_frame [of "Some one_text_bar"]
  have "snd (is_price_increasing (Some one_text_bar)) = Some one_text_bar"
    and "map_option (map trade_date) (snd (filter_logic_three (Some one_text_bar)))
       = Some (map trade_date one_text_bar)" by simp_all
  ultimately show ?thesis using h by blast
qed

section \<open>The retry wrapper around process\_stock\<close>

























section \<open>A run of the script\<close>
























section \<open>Running again on the same day\<close>






section \<open>Writing the result file\<close>





end
